theory Spec2Isabelle
  imports Main "HOL-Library.Multiset" "HOL-Library.AList"
begin

section \<open>Instants and times of day\<close>

text \<open>
  A naive \<^verbatim>\<open>datetime\<close> is modelled by the number of microseconds since a fixed
  midnight, an \<^typ>\<open>int\<close>; a \<^verbatim>\<open>datetime.time\<close> by the number of microseconds since
  midnight.  Python builds only times of day in the range \<open>0 \<le> x < DAY\<close>; that range
  is the predicate \<open>valid_time\<close>.  The calendar bound of Python's \<^verbatim>\<open>datetime\<close>
  (year 9999) is not modelled: instants are unbounded.
\<close>

type_synonym datetime = int
type_synonym dtime = int

definition DAY :: int where
  "DAY = 86400000000"

definition valid_time :: "dtime \<Rightarrow> bool" where
  "valid_time x = (0 \<le> x \<and> x < DAY)"

text \<open>\<^verbatim>\<open>current.time()\<close>, \<^verbatim>\<open>current.date()\<close> and \<^verbatim>\<open>datetime.combine(d, t)\<close>.\<close>

definition time_of :: "datetime \<Rightarrow> dtime" where
  "time_of c = c mod DAY"

definition date_of :: "datetime \<Rightarrow> int" where
  "date_of c = c div DAY"

definition combine :: "int \<Rightarrow> dtime \<Rightarrow> datetime" where
  "combine d x = d * DAY + x"

section \<open>TimeWindow\<close>

record TimeWindow =
  start_time :: dtime
  end_time :: dtime

definition is_in_window :: "TimeWindow \<Rightarrow> datetime \<Rightarrow> bool" where
  "is_in_window w current =
     (let current_time = time_of current in
      if start_time w \<le> end_time w
      then start_time w \<le> current_time \<and> current_time \<le> end_time w
      else current_time \<ge> start_time w \<or> current_time \<le> end_time w)"

definition next_window_start :: "TimeWindow \<Rightarrow> datetime \<Rightarrow> datetime" where
  "next_window_start w current =
     (let start_today = combine (date_of current) (start_time w) in
      if start_time w \<le> end_time w then
        (if time_of current > end_time w then start_today + DAY
         else if time_of current < start_time w then start_today
         else current)
      else
        (if end_time w < time_of current \<and> time_of current < start_time w then start_today
         else current))"

definition well_formed :: "TimeWindow \<Rightarrow> bool" where
  "well_formed w = (valid_time (start_time w) \<and> valid_time (end_time w))"

text \<open>
  The loop of \<^verbatim>\<open>_update_next_run_time\<close>.  It is reached only behind the guard
  \<^verbatim>\<open>if not self.time_windows: ... return\<close>, so the list of windows is \<open>w # ws\<close>.
  \<open>None\<close> is a loop that never ends.
\<close>

definition any_in_window :: "TimeWindow list \<Rightarrow> datetime \<Rightarrow> bool" where
  "any_in_window ws current = list_ex (\<lambda>w. is_in_window w current) ws"

fun min_window_start :: "TimeWindow \<Rightarrow> TimeWindow list \<Rightarrow> datetime \<Rightarrow> datetime" where
  "min_window_start w [] current = next_window_start w current"
| "min_window_start w (v # vs) current =
     min (next_window_start w current) (min_window_start v vs current)"

partial_function (option) window_loop ::
  "TimeWindow \<Rightarrow> TimeWindow list \<Rightarrow> datetime \<Rightarrow> datetime option" where
  "window_loop w ws current_time =
     (if \<not> any_in_window (w # ws) current_time
      then window_loop w ws (min_window_start w ws current_time)
      else Some current_time)"


section \<open>Tasks\<close>

datatype TaskStatus = PENDING | RUNNING | COMPLETED | FAILED | PAUSED | STOPPED | CANCELLED

datatype TaskPriority = LOW | NORMAL | HIGH | CRITICAL

fun priority_value :: "TaskPriority \<Rightarrow> int" where
  "priority_value LOW = 0"
| "priority_value NORMAL = 1"
| "priority_value HIGH = 2"
| "priority_value CRITICAL = 3"

datatype error = TaskControlError string | RuntimeError string

text \<open>
  Callbacks are opaque functions of the caller.  A callback is modelled by its name, and
  calling it by an entry in the task's list \<open>calls\<close>: the calls made so far, in order.
  Callbacks are taken to return normally and not to touch the task.
\<close>

datatype call =
    StatusChange string TaskStatus TaskStatus
  | Success string
  | Failure string

text \<open>
  Intervals, \<^verbatim>\<open>max_running_time\<close> and elapsed times are in microseconds, the
  resolution of \<^verbatim>\<open>timedelta\<close>.  The two \<^verbatim>\<open>Event\<close>s are booleans.  The field
  \<^verbatim>\<open>_execution_timer\<close> is never assigned anything but \<^verbatim>\<open>None\<close> and is left out.
  \<open>supports_interrupt\<close> is \<^verbatim>\<open>hasattr(self._task_func, 'supports_interrupt')\<close>.
\<close>

record Task =
  task_id :: string
  name :: string
  priority :: TaskPriority
  status :: TaskStatus
  interval :: "int option"
  last_run :: "datetime option"
  next_run :: "datetime option"
  error_count :: nat
  time_windows :: "TimeWindow list"
  max_running_time :: "int option"
  stop_event :: bool
  pause_event :: bool
  on_success_callbacks :: "string list"
  on_failure_callbacks :: "string list"
  on_status_change_callbacks :: "string list"
  execution_start_time :: "datetime option"
  supports_interrupt :: bool
  calls :: "call list"

definition BaseTask_init ::
  "string \<Rightarrow> string \<Rightarrow> TaskPriority \<Rightarrow> int option \<Rightarrow> TimeWindow list \<Rightarrow> int option \<Rightarrow> Task" where
  "BaseTask_init uuid nm prio itv windows max_rt =
     \<lparr> task_id = uuid, name = nm, priority = prio, status = PENDING, interval = itv,
       last_run = None, next_run = None, error_count = 0, time_windows = windows,
       max_running_time = max_rt, stop_event = False, pause_event = True,
       on_success_callbacks = [], on_failure_callbacks = [], on_status_change_callbacks = [],
       execution_start_time = None, supports_interrupt = False, calls = [] \<rparr>"

definition PeriodicTask_init ::
  "datetime \<Rightarrow> string \<Rightarrow> string \<Rightarrow> int \<Rightarrow> bool \<Rightarrow> TaskPriority \<Rightarrow> TimeWindow list \<Rightarrow> int option
     \<Rightarrow> Task" where
  "PeriodicTask_init now uuid nm itv interruptible prio windows max_rt =
     (BaseTask_init uuid nm prio (Some itv) windows max_rt)
       \<lparr> supports_interrupt := interruptible, next_run := Some now \<rparr>"

definition is_in_time_window :: "datetime \<Rightarrow> Task \<Rightarrow> bool" where
  "is_in_time_window now t =
     (if time_windows t = [] then True else any_in_window (time_windows t) now)"

definition update_status :: "TaskStatus \<Rightarrow> Task \<Rightarrow> Task" where
  "update_status new_status t =
     t \<lparr> status := new_status,
         calls := calls t @
           map (\<lambda>cb. StatusChange cb (status t) new_status) (on_status_change_callbacks t) \<rparr>"

definition check_execution_time :: "datetime \<Rightarrow> Task \<Rightarrow> bool" where
  "check_execution_time now t =
     (case max_running_time t of
        None \<Rightarrow> True
      | Some m \<Rightarrow>
          if m = 0 then True
          else (case execution_start_time t of
                  None \<Rightarrow> True
                | Some started \<Rightarrow> \<not> (now - started > m)))"

definition pause :: "Task \<Rightarrow> error + Task" where
  "pause t =
     (if status t = STOPPED then Inl (TaskControlError ''Cannot pause a stopped task'')
      else let t1 = t \<lparr> pause_event := False \<rparr> in
           Inr (if status t1 \<noteq> RUNNING then update_status PAUSED t1 else t1))"

definition resume :: "datetime \<Rightarrow> Task \<Rightarrow> error + Task" where
  "resume now t =
     (if status t = STOPPED then Inl (TaskControlError ''Cannot resume a stopped task'')
      else let t1 = t \<lparr> pause_event := True \<rparr> in
           Inr (if status t1 = PAUSED
                then (let t2 = update_status PENDING t1 in
                      case interval t2 of
                        None \<Rightarrow> t2
                      | Some i \<Rightarrow> t2 \<lparr> next_run := Some (now + i) \<rparr>)
                else t1))"

definition stop :: "Task \<Rightarrow> Task" where
  "stop t = update_status STOPPED (t \<lparr> stop_event := True, pause_event := True \<rparr>)"

definition update_next_run_time :: "datetime \<Rightarrow> Task \<Rightarrow> Task option" where
  "update_next_run_time now t =
     (case interval t of
        None \<Rightarrow> Some (t \<lparr> next_run := Some now \<rparr>)
      | Some i \<Rightarrow>
          (let base_next_run = (case last_run t of None \<Rightarrow> now | Some l \<Rightarrow> l + i) in
           case time_windows t of
             [] \<Rightarrow> Some (t \<lparr> next_run := Some base_next_run \<rparr>)
           | w # ws \<Rightarrow>
               (case window_loop w ws base_next_run of
                  None \<Rightarrow> None
                | Some current_time \<Rightarrow> Some (t \<lparr> next_run := Some current_time \<rparr>))))"

definition reset :: "datetime \<Rightarrow> Task \<Rightarrow> Task option" where
  "reset now t =
     update_next_run_time now
       (update_status PENDING (t \<lparr> stop_event := False, pause_event := True, error_count := 0 \<rparr>))"

definition add_status_change_callback :: "string \<Rightarrow> Task \<Rightarrow> Task" where
  "add_status_change_callback cb t =
     t \<lparr> on_status_change_callbacks := on_status_change_callbacks t @ [cb] \<rparr>"

definition add_success_callback :: "string \<Rightarrow> Task \<Rightarrow> Task" where
  "add_success_callback cb t = t \<lparr> on_success_callbacks := on_success_callbacks t @ [cb] \<rparr>"

definition add_failure_callback :: "string \<Rightarrow> Task \<Rightarrow> Task" where
  "add_failure_callback cb t = t \<lparr> on_failure_callbacks := on_failure_callbacks t @ [cb] \<rparr>"

subsection \<open>Control calls made while a cycle is under way\<close>

text \<open>
  \<^verbatim>\<open>run\<close> holds the task's lock only while it sets RUNNING and while it records the
  result.  In between, the body or another thread may call the control methods.  Such a
  call is a \<open>control\<close>, with the clock reading it makes; a call that raises
  \<^verbatim>\<open>TaskControlError\<close> raises it in its own caller and leaves the task as it was.
\<close>

datatype control = Pause | Resume datetime | Stop | Reset datetime

fun apply_control :: "control \<Rightarrow> Task \<Rightarrow> Task option" where
  "apply_control Pause t = Some (case pause t of Inl e \<Rightarrow> t | Inr t' \<Rightarrow> t')"
| "apply_control (Resume now) t = Some (case resume now t of Inl e \<Rightarrow> t | Inr t' \<Rightarrow> t')"
| "apply_control Stop t = Some (stop t)"
| "apply_control (Reset now) t = reset now t"

text \<open>
  \<^verbatim>\<open>self._pause_event.wait()\<close>: the caller is blocked until a control call sets the
  pause event.  \<open>wake\<close> lists the control calls that arrive while it is blocked; the
  wait ends at the first one that sets the event, and never ends (\<open>None\<close>) when none does.
\<close>

fun wait_pause :: "control list \<Rightarrow> Task \<Rightarrow> Task option" where
  "wait_pause [] t = (if pause_event t then Some t else None)"
| "wait_pause (c # cs) t =
     (if pause_event t then Some t
      else (case apply_control c t of None \<Rightarrow> None | Some t' \<Rightarrow> wait_pause cs t'))"

definition check_interrupt :: "control list \<Rightarrow> Task \<Rightarrow> (bool \<times> Task) option" where
  "check_interrupt wake t =
     (if stop_event t then Some (False, t)
      else if \<not> pause_event t then
        (case wait_pause wake (update_status PAUSED t) of
           None \<Rightarrow> None
         | Some t1 \<Rightarrow>
             if stop_event t1 then Some (False, t1)
             else Some (True, update_status PENDING t1))
      else Some (True, t))"

subsection \<open>One cycle: \<^verbatim>\<open>PeriodicTask.run\<close>\<close>

text \<open>
  The task body is a function of the caller.  What it does to the task is given by a
  script: the control calls made while it executes (by the body itself or by another
  thread), the polls of the predicate \<^verbatim>\<open>check_interrupt\<close> that a body with
  \<^verbatim>\<open>supports_interrupt\<close> is handed (with the control calls that arrive while the
  poll is blocked on the pause event), and whether the body returns or raises.  The
  value of the predicate goes to the body, whose reaction is part of the script.
\<close>

datatype body_event = Control control | Poll "control list"

datatype outcome = Returns | Raises

record run_env =
  wake_first :: "control list"
  t_start :: datetime
  body :: "body_event list"
  result :: outcome
  wake_last :: "control list"
  t_check :: datetime
  t_done :: datetime
  t_next :: datetime

fun body_events :: "body_event list \<Rightarrow> Task \<Rightarrow> Task option" where
  "body_events [] t = Some t"
| "body_events (Control c # es) t =
     (case apply_control c t of None \<Rightarrow> None | Some t' \<Rightarrow> body_events es t')"
| "body_events (Poll wake # es) t =
     (if supports_interrupt t
      then (case check_interrupt wake t of None \<Rightarrow> None | Some (b, t') \<Rightarrow> body_events es t')
      else body_events es t)"

text \<open>The block of \<^verbatim>\<open>run\<close> after a body that returned and passed the checks.\<close>

definition run_completed :: "datetime \<Rightarrow> datetime \<Rightarrow> Task \<Rightarrow> Task option" where
  "run_completed done_at now t =
     (let t1 = update_status COMPLETED (t \<lparr> execution_start_time := None \<rparr>);
          t2 = t1 \<lparr> last_run := Some done_at \<rparr>
      in case update_next_run_time now t2 of
           None \<Rightarrow> None
         | Some t3 \<Rightarrow> Some (t3 \<lparr> calls := calls t3 @ map Success (on_success_callbacks t3) \<rparr>))"

text \<open>The \<^verbatim>\<open>except Exception\<close> block of \<^verbatim>\<open>run\<close>.\<close>

definition run_failed :: "Task \<Rightarrow> Task" where
  "run_failed t =
     (let t1 = update_status FAILED (t \<lparr> execution_start_time := None \<rparr>);
          t2 = t1 \<lparr> error_count := error_count t1 + 1 \<rparr>
      in t2 \<lparr> calls := calls t2 @ map Failure (on_failure_callbacks t2) \<rparr>)"

text \<open>
  \<^verbatim>\<open>run\<close> returns its boolean and the task as it leaves it; \<open>None\<close> is a call that
  never returns.  The second interrupt check is made with the lock held, so no control
  call can arrive while it waits.
\<close>

definition run :: "run_env \<Rightarrow> Task \<Rightarrow> (bool \<times> Task) option" where
  "run env t =
     (case check_interrupt (wake_first env) t of
        None \<Rightarrow> None
      | Some (False, t1) \<Rightarrow> Some (False, t1)
      | Some (True, t1) \<Rightarrow>
          (case check_interrupt [] t1 of
             None \<Rightarrow> None
           | Some (False, t2) \<Rightarrow> Some (False, t2)
           | Some (True, t2) \<Rightarrow>
               (let t3 = (update_status RUNNING t2) \<lparr> execution_start_time := Some (t_start env) \<rparr>
                in case body_events (body env) t3 of
                     None \<Rightarrow> None
                   | Some t4 \<Rightarrow>
                       if result env = Raises then Some (False, run_failed t4)
                       else
                         (case check_interrupt (wake_last env) t4 of
                            None \<Rightarrow> None
                          | Some (False, t5) \<Rightarrow> Some (False, t5)
                          | Some (True, t5) \<Rightarrow>
                              if \<not> check_execution_time (t_check env) t5 then Some (False, t5)
                              else (case run_completed (t_done env) (t_next env) t5 of
                                      None \<Rightarrow> None
                                    | Some t6 \<Rightarrow> Some (True, t6))))))"

subsection \<open>Sequences of operations on one task\<close>

datatype operation = Run run_env | Call control

fun apply_operation :: "operation \<Rightarrow> Task \<Rightarrow> Task option" where
  "apply_operation (Run env) t = map_option snd (run env t)"
| "apply_operation (Call c) t = apply_control c t"

fun apply_operations :: "operation list \<Rightarrow> Task \<Rightarrow> Task option" where
  "apply_operations [] t = Some t"
| "apply_operations (op # ops) t =
     (case apply_operation op t of None \<Rightarrow> None | Some t' \<Rightarrow> apply_operations ops t')"

fun is_reset :: "operation \<Rightarrow> bool" where
  "is_reset (Call (Reset now)) = True"
| "is_reset op = False"

text \<open>The control calls that only raise or clear the two events.\<close>

fun quiet :: "control \<Rightarrow> bool" where
  "quiet Pause = True"
| "quiet Stop = True"
| "quiet (Resume now) = False"
| "quiet (Reset now) = False"

fun quiet_event :: "body_event \<Rightarrow> bool" where
  "quiet_event (Control c) = quiet c"
| "quiet_event (Poll wake) = list_all quiet wake"

fun is_poll :: "body_event \<Rightarrow> bool" where
  "is_poll (Poll wake) = True"
| "is_poll (Control c) = False"

definition quiet_env :: "run_env \<Rightarrow> bool" where
  "quiet_env env =
     (list_all quiet (wake_first env) \<and> list_all quiet_event (body env) \<and>
      list_all quiet (wake_last env))"

text \<open>The calls that report a transition to COMPLETED or to FAILED.\<close>

fun reports_end :: "call \<Rightarrow> bool" where
  "reports_end (StatusChange cb old new) = (new = COMPLETED \<or> new = FAILED)"
| "reports_end (Success cb) = False"
| "reports_end (Failure cb) = False"

subsection \<open>What a cycle leaves as it was\<close>

text \<open>
  \<open>same_setup\<close>: the fields fixed at construction and the registered callbacks.
  \<open>kept q t t'\<close>: from \<open>t\<close> to \<open>t'\<close> the setup and \<open>last_run\<close> are the same, no
  transition to COMPLETED or FAILED was reported, \<open>error_count\<close> did not grow, and, when
  \<open>q\<close> holds, \<open>next_run\<close> and \<open>error_count\<close> are the same.  \<open>started\<close> is the
  task as \<^verbatim>\<open>run\<close> hands it to the body.
\<close>

definition same_setup :: "Task \<Rightarrow> Task \<Rightarrow> bool" where
  "same_setup t t' =
     (task_id t' = task_id t \<and> name t' = name t \<and> priority t' = priority t \<and>
      interval t' = interval t \<and> time_windows t' = time_windows t \<and>
      max_running_time t' = max_running_time t \<and>
      on_success_callbacks t' = on_success_callbacks t \<and>
      on_failure_callbacks t' = on_failure_callbacks t \<and>
      on_status_change_callbacks t' = on_status_change_callbacks t \<and>
      supports_interrupt t' = supports_interrupt t)"

definition kept :: "bool \<Rightarrow> Task \<Rightarrow> Task \<Rightarrow> bool" where
  "kept q t t' =
     (same_setup t t' \<and> last_run t' = last_run t \<and>
      filter reports_end (calls t') = filter reports_end (calls t) \<and>
      error_count t' \<le> error_count t \<and>
      (q \<longrightarrow> next_run t' = next_run t \<and> error_count t' = error_count t))"

definition started :: "run_env \<Rightarrow> Task \<Rightarrow> Task" where
  "started env t = (update_status RUNNING t) \<lparr> execution_start_time := Some (t_start env) \<rparr>"

section \<open>Scheduler\<close>

datatype SchedulerMode = FOREGROUND | BACKGROUND

text \<open>
  \<^verbatim>\<open>_tasks\<close> is a dict keyed by task id; a dict keeps insertion order, which
  \<^verbatim>\<open>values()\<close> follows, so it is an association list.  \<open>thread\<close> is \<open>None\<close> or the
  thread with its liveness.
\<close>

record Scheduler =
  tasks :: "(string \<times> Task) list"
  sched_stop_event :: bool
  thread :: "bool option"
  mode :: SchedulerMode
  check_interval :: int

definition Scheduler_init :: "SchedulerMode \<Rightarrow> int \<Rightarrow> Scheduler" where
  "Scheduler_init m ci =
     \<lparr> tasks = [], sched_stop_event = False, thread = None, mode = m, check_interval = ci \<rparr>"

definition is_running :: "Scheduler \<Rightarrow> bool" where
  "is_running s =
     ((case thread s of None \<Rightarrow> False | Some alive \<Rightarrow> alive) \<or>
      (\<not> sched_stop_event s \<and> mode s = FOREGROUND))"

definition add_task :: "Task \<Rightarrow> Scheduler \<Rightarrow> string \<times> Scheduler" where
  "add_task t s = (task_id t, s \<lparr> tasks := AList.update (task_id t) t (tasks s) \<rparr>)"

definition scheduler_stop :: "Scheduler \<Rightarrow> Scheduler" where
  "scheduler_stop s =
     (let s1 = s \<lparr> sched_stop_event := True \<rparr> in
      if thread s1 = Some True then s1 \<lparr> thread := None \<rparr> else s1)"

text \<open>\<^verbatim>\<open>BaseTask.__lt__\<close>: the higher priority is the smaller task.\<close>

definition task_lt :: "Task \<Rightarrow> Task \<Rightarrow> bool" where
  "task_lt a b = (priority_value (priority a) > priority_value (priority b))"

text \<open>
  \<^verbatim>\<open>list.sort()\<close> is a stable sort that compares its elements with \<open><\<close> only; it
  is modelled by the stable insertion sort.
\<close>

fun insert_sorted :: "('a \<Rightarrow> 'a \<Rightarrow> bool) \<Rightarrow> 'a \<Rightarrow> 'a list \<Rightarrow> 'a list" where
  "insert_sorted lt x [] = [x]"
| "insert_sorted lt x (y # ys) =
     (if lt y x then y # insert_sorted lt x ys else x # y # ys)"

fun list_sort :: "('a \<Rightarrow> 'a \<Rightarrow> bool) \<Rightarrow> 'a list \<Rightarrow> 'a list" where
  "list_sort lt [] = []"
| "list_sort lt (x # xs) = insert_sorted lt x (list_sort lt xs)"

text \<open>
  What the surroundings do during one iteration of the loop of \<^verbatim>\<open>_run\<close>: the clock
  readings, the script of each task's cycle, and whether \<^verbatim>\<open>Scheduler.stop\<close> is called
  while a task runs or during the wait that ends the iteration.  A cycle acts on its own
  task only.
\<close>

record tick_env =
  t_now :: datetime
  t_window :: "string \<Rightarrow> datetime"
  cycle :: "string \<Rightarrow> run_env"
  stop_during :: "string \<Rightarrow> bool"
  stop_in_wait :: bool

definition is_ready :: "tick_env \<Rightarrow> Task \<Rightarrow> bool" where
  "is_ready env t =
     (status t \<notin> set [RUNNING, STOPPED, CANCELLED] \<and>
      (case next_run t of None \<Rightarrow> False | Some n \<Rightarrow> n \<le> t_now env) \<and>
      is_in_time_window (t_window env (task_id t)) t)"

text \<open>The list comprehension of \<^verbatim>\<open>_run\<close>, and the list once it is sorted.\<close>

definition snapshot :: "tick_env \<Rightarrow> Scheduler \<Rightarrow> Task list" where
  "snapshot env s = filter (is_ready env) (map snd (tasks s))"

definition ready_tasks :: "tick_env \<Rightarrow> Scheduler \<Rightarrow> Task list" where
  "ready_tasks env s = list_sort task_lt (snapshot env s)"

text \<open>
  The \<^verbatim>\<open>for\<close> loop over the sorted snapshot.  It returns the ids of the tasks it
  ran, in the order it ran them.
\<close>

fun run_ready :: "tick_env \<Rightarrow> Task list \<Rightarrow> Scheduler \<Rightarrow> (string list \<times> Scheduler) option" where
  "run_ready env [] s = Some ([], s)"
| "run_ready env (t # ts) s =
     (if sched_stop_event s then Some ([], s)
      else (case run (cycle env (task_id t)) t of
              None \<Rightarrow> None
            | Some (r, t') \<Rightarrow>
                (case run_ready env ts
                        (s \<lparr> tasks := AList.update (task_id t) t' (tasks s),
                             sched_stop_event := sched_stop_event s \<or> stop_during env (task_id t) \<rparr>) of
                   None \<Rightarrow> None
                 | Some (ex, s') \<Rightarrow> Some (task_id t # ex, s'))))"

definition tick :: "tick_env \<Rightarrow> Scheduler \<Rightarrow> (string list \<times> Scheduler) option" where
  "tick env s =
     (case run_ready env (ready_tasks env s) s of
        None \<Rightarrow> None
      | Some (ex, s') \<Rightarrow>
          Some (ex, s' \<lparr> sched_stop_event := sched_stop_event s' \<or> stop_in_wait env \<rparr>))"

text \<open>\<^verbatim>\<open>Scheduler._run\<close>; \<open>None\<close> is a loop that never ends.\<close>

partial_function (option) scheduler_run ::
  "(nat \<Rightarrow> tick_env) \<Rightarrow> nat \<Rightarrow> Scheduler \<Rightarrow> Scheduler option" where
  "scheduler_run envs k s =
     (if \<not> sched_stop_event s
      then (case tick (envs k) s of
              None \<Rightarrow> None
            | Some p \<Rightarrow> scheduler_run envs (Suc k) (snd p))
      else Some s)"

text \<open>
  The first \<open>n\<close> iterations of that loop, with the ids of the tasks run in them.
\<close>

fun ticks :: "(nat \<Rightarrow> tick_env) \<Rightarrow> nat \<Rightarrow> Scheduler \<Rightarrow> (string list \<times> Scheduler) option" where
  "ticks envs 0 s = Some ([], s)"
| "ticks envs (Suc n) s =
     (case ticks envs n s of
        None \<Rightarrow> None
      | Some (ex, s1) \<Rightarrow>
          if sched_stop_event s1 then Some (ex, s1)
          else (case tick (envs n) s1 of
                  None \<Rightarrow> None
                | Some (ex', s2) \<Rightarrow> Some (ex @ ex', s2)))"

text \<open>
  \<^verbatim>\<open>Scheduler.start\<close>.  In BACKGROUND mode the new thread runs the loop and the
  caller returns at once; in FOREGROUND mode the caller runs the loop itself.
\<close>

definition start :: "(nat \<Rightarrow> tick_env) \<Rightarrow> Scheduler \<Rightarrow> (error + Scheduler) option" where
  "start envs s =
     (if is_running s then Some (Inl (RuntimeError ''Scheduler is already running''))
      else let s1 = s \<lparr> sched_stop_event := False \<rparr> in
           if mode s1 = BACKGROUND then Some (Inr (s1 \<lparr> thread := Some True \<rparr>))
           else map_option Inr (scheduler_run envs 0 s1))"

text \<open>
  \<open>only_entry x s\<close>: the scheduler holds the task \<open>x\<close> under its id, and no other
  task with that id.
\<close>

definition only_entry :: "Task \<Rightarrow> Scheduler \<Rightarrow> bool" where
  "only_entry x s =
     ((task_id x, x) \<in> set (tasks s) \<and>
      (\<forall>(k, v) \<in> set (tasks s). task_id v = task_id x \<longrightarrow> v = x))"

section \<open>Concrete values\<close>

text \<open>
  09:00 to 17:00, and 22:00 to 03:00 across midnight.  Day 0, 20:00 is the instant
  \<open>72000000000\<close>; day 0, 12:00 is \<open>43200000000\<close>; day 1, 09:00 is \<open>118800000000\<close>.
\<close>

definition office_hours :: TimeWindow where
  "office_hours = \<lparr> start_time = 32400000000, end_time = 61200000000 \<rparr>"

definition night_shift :: TimeWindow where
  "night_shift = \<lparr> start_time = 79200000000, end_time = 10800000000 \<rparr>"

text \<open>
  A task built at instant 0 with a period of five seconds; a task built at 20:00 with a
  period of one second and the window 09:00 to 17:00; a cycle without control calls
  whose body returns.
\<close>

definition example_task :: Task where
  "example_task = PeriodicTask_init 0 ''a1'' ''job'' 5000000 False NORMAL [] None"

definition windowed_task :: Task where
  "windowed_task =
     PeriodicTask_init 72000000000 ''a2'' ''report'' 1000000 False NORMAL [office_hours] None"

definition plain_env :: run_env where
  "plain_env = \<lparr> wake_first = [], t_start = 10, body = [], result = Returns,
                  wake_last = [], t_check = 20, t_done = 30, t_next = 40 \<rparr>"

text \<open>
  The first task with a status-change callback and a failure callback; a cycle during
  which \<^verbatim>\<open>stop\<close> is called; a cycle whose body raises; a cycle during which
  \<^verbatim>\<open>pause\<close> is called, and \<^verbatim>\<open>resume\<close> once the cycle waits.
\<close>

definition watched_task :: Task where
  "watched_task =
     add_failure_callback ''alert'' (add_status_change_callback ''log'' example_task)"

definition stopping_env :: run_env where
  "stopping_env = plain_env \<lparr> body := [Control Stop] \<rparr>"


definition raising_env :: run_env where
  "raising_env = plain_env \<lparr> result := Raises \<rparr>"

text \<open>
  A task with a time limit of two seconds whose body polls the interrupt predicate, a
  cycle of it that takes three seconds, an iteration of the dispatcher at second four,
  and a scheduler that holds the task as that cycle leaves it.
\<close>

definition limited_task :: Task where
  "limited_task = PeriodicTask_init 0 ''a3'' ''batch'' 5000000 True NORMAL [] (Some 2000000)"

definition slow_env :: run_env where
  "slow_env = \<lparr> wake_first = [], t_start = 10, body = [Poll []], result = Returns,
                 wake_last = [], t_check = 3000010, t_done = 3000020, t_next = 3000030 \<rparr>"

definition idle_tick :: tick_env where
  "idle_tick = \<lparr> t_now = 4000000, t_window = (\<lambda>k. 4000000), cycle = (\<lambda>k. plain_env),
                  stop_during = (\<lambda>k. False), stop_in_wait = False \<rparr>"

definition stuck_scheduler :: Scheduler where
  "stuck_scheduler =
     snd (add_task (started slow_env limited_task) (Scheduler_init BACKGROUND 100000))"

text \<open>
  Four tasks with the priorities LOW, CRITICAL, NORMAL and HIGH, added in that order and
  all due, and an iteration of the dispatcher in which each cycle completes.
\<close>

definition late_env :: run_env where
  "late_env = \<lparr> wake_first = [], t_start = 4000002, body = [], result = Returns,
                 wake_last = [], t_check = 4000003, t_done = 4000004, t_next = 4000005 \<rparr>"

definition due_tick :: tick_env where
  "due_tick = \<lparr> t_now = 4000000, t_window = (\<lambda>k. 4000001), cycle = (\<lambda>k. late_env),
                 stop_during = (\<lambda>k. False), stop_in_wait = False \<rparr>"

definition task_of :: "string \<Rightarrow> TaskPriority \<Rightarrow> Task" where
  "task_of k p = PeriodicTask_init 0 k ''job'' 100000 False p [] None"

definition four_tasks :: Scheduler where
  "four_tasks =
     foldl (\<lambda>s t. snd (add_task t s)) (Scheduler_init BACKGROUND 100000)
       [task_of ''t-low'' LOW, task_of ''t-critical'' CRITICAL, task_of ''t-normal'' NORMAL,
        task_of ''t-high'' HIGH]"

section \<open>Facts about instants\<close>

lemma DAY_pos: "0 < DAY"
  by (simp add: DAY_def)

lemma time_of_range: "0 \<le> time_of c \<and> time_of c < DAY"
  using DAY_pos by (simp add: time_of_def)

lemma split_instant: "c = combine (date_of c) (time_of c)"
  by (simp add: combine_def date_of_def time_of_def)

lemma date_of_combine: "valid_time x \<Longrightarrow> date_of (combine d x) = d"
  by (simp add: date_of_def combine_def valid_time_def)

lemma time_of_combine: "valid_time x \<Longrightarrow> time_of (combine d x) = x"
  by (simp add: time_of_def combine_def valid_time_def)

lemma time_of_next_day: "time_of (c + DAY) = time_of c"
  by (simp add: time_of_def)

lemma date_of_next_day: "date_of (c + DAY) = date_of c + 1"
proof -
  have "DAY \<noteq> 0" using DAY_pos by simp
  then show ?thesis unfolding date_of_def by (rule div_add_self2)
qed

lemma combine_le_iff:
  assumes "valid_time x" "valid_time y"
  shows "combine d x \<le> combine e y \<longleftrightarrow> d < e \<or> (d = e \<and> x \<le> y)"
proof -
  have pos: "0 < DAY" by (rule DAY_pos)
  show ?thesis
  proof (cases "d < e")
    case True
    then have "d + 1 \<le> e" by simp
    then have "(d + 1) * DAY \<le> e * DAY" using pos by (simp only: mult_right_mono less_imp_le)
    then have "d * DAY + DAY \<le> e * DAY" by (simp add: algebra_simps)
    with assms True show ?thesis by (simp add: combine_def valid_time_def)
  next
    case False
    show ?thesis
    proof (cases "d = e")
      case True
      then show ?thesis by (simp add: combine_def)
    next
      case ne: False
      with False have "e + 1 \<le> d" by simp
      then have "(e + 1) * DAY \<le> d * DAY" using pos by (simp only: mult_right_mono less_imp_le)
      then have "e * DAY + DAY \<le> d * DAY" by (simp add: algebra_simps)
      with assms False ne show ?thesis by (simp add: combine_def valid_time_def)
    qed
  qed
qed

lemma instant_le_iff:
  "c \<le> u \<longleftrightarrow> date_of c < date_of u \<or> (date_of c = date_of u \<and> time_of c \<le> time_of u)"
proof -
  have "c \<le> u \<longleftrightarrow> combine (date_of c) (time_of c) \<le> combine (date_of u) (time_of u)"
    using split_instant [of c] split_instant [of u] by simp
  also have "\<dots> \<longleftrightarrow> date_of c < date_of u \<or> (date_of c = date_of u \<and> time_of c \<le> time_of u)"
    by (rule combine_le_iff) (simp_all add: valid_time_def time_of_range)
  finally show ?thesis .
qed


lemma combine_next_day: "combine d x + DAY = combine (d + 1) x"
  by (simp add: combine_def algebra_simps)

lemma date_of_start_next: "valid_time x \<Longrightarrow> date_of (combine d x + DAY) = d + 1"
  by (simp add: date_of_next_day date_of_combine)

lemma time_of_start_next: "valid_time x \<Longrightarrow> time_of (combine d x + DAY) = x"
  by (simp add: time_of_next_day time_of_combine)

lemma nws_in_window:
  assumes "well_formed w"
  shows "is_in_window w (next_window_start w t)"
  using assms
  by (auto simp: well_formed_def is_in_window_def next_window_start_def Let_def
      time_of_combine time_of_start_next)

lemma nws_fixed: "is_in_window w t \<Longrightarrow> next_window_start w t = t"
  by (auto simp: is_in_window_def next_window_start_def Let_def)

lemma nws_ge:
  assumes "well_formed w"
  shows "t \<le> next_window_start w t"
  using assms time_of_range [of t]
  by (auto simp: well_formed_def next_window_start_def Let_def instant_le_iff [of t]
      time_of_combine time_of_start_next date_of_combine date_of_start_next)

lemma nws_least:
  assumes "well_formed w" "t \<le> u" "is_in_window w u"
  shows "next_window_start w t \<le> u"
  using assms time_of_range [of t] time_of_range [of u]
  by (auto simp: well_formed_def next_window_start_def is_in_window_def Let_def instant_le_iff [of _ u]
      time_of_combine time_of_start_next date_of_combine date_of_start_next split: if_splits)

lemma nws_lt_day:
  assumes "well_formed w"
  shows "next_window_start w t < t + DAY"
proof -
  have "\<not> t + DAY \<le> next_window_start w t"
  using assms time_of_range [of t]
  by (auto simp: well_formed_def next_window_start_def Let_def instant_le_iff [of "t + DAY"]
      time_of_combine time_of_start_next date_of_combine date_of_start_next time_of_next_day date_of_next_day)
  then show ?thesis by simp
qed

lemma min_window_start_mem:
  "\<exists>v \<in> set (w # ws). min_window_start w ws t = next_window_start v t"
  by (induction ws arbitrary: w) (auto simp: min_def)

lemma min_window_start_props:
  assumes "\<forall>v \<in> set (w # ws). well_formed v"
  shows "any_in_window (w # ws) (min_window_start w ws t)"
    and "t \<le> min_window_start w ws t"
    and "min_window_start w ws t < t + DAY"
proof -
  obtain v where v: "v \<in> set (w # ws)" "min_window_start w ws t = next_window_start v t"
    using min_window_start_mem by blast
  with assms have wf: "well_formed v" by blast
  from v(1) nws_in_window [OF wf, of t] show "any_in_window (w # ws) (min_window_start w ws t)"
    unfolding any_in_window_def list_ex_iff v(2) by blast
  show "t \<le> min_window_start w ws t" using nws_ge [OF wf] v(2) by simp
  show "min_window_start w ws t < t + DAY" using nws_lt_day [OF wf] v(2) by simp
qed

lemma window_loop_inside:
  "any_in_window (w # ws) t \<Longrightarrow> window_loop w ws t = Some t"
  by (subst window_loop.simps) simp

lemma window_loop_outside:
  assumes "\<forall>v \<in> set (w # ws). well_formed v" "\<not> any_in_window (w # ws) t"
  shows "window_loop w ws t = Some (min_window_start w ws t)"
proof -
  have "window_loop w ws t = window_loop w ws (min_window_start w ws t)"
    using assms(2) by (subst window_loop.simps) simp
  also have "\<dots> = Some (min_window_start w ws t)"
    by (rule window_loop_inside) (rule min_window_start_props(1) [OF assms(1)])
  finally show ?thesis .
qed

section \<open>Facts about tasks\<close>

lemma kept_refl: "kept q t t"
  by (simp add: kept_def same_setup_def)

lemma kept_trans: "kept q t u \<Longrightarrow> kept q' u v \<Longrightarrow> kept (q \<and> q') t v"
  by (auto simp: kept_def same_setup_def)

lemma kept_weaken: "kept q t t' \<Longrightarrow> (q' \<Longrightarrow> q) \<Longrightarrow> kept q' t t'"
  by (auto simp: kept_def)

lemma filter_status_calls:
  "new \<noteq> COMPLETED \<Longrightarrow> new \<noteq> FAILED \<Longrightarrow>
   filter reports_end (map (\<lambda>cb. StatusChange cb old new) cbs) = []"
  by (induction cbs) auto

lemma kept_update_status:
  "new \<noteq> COMPLETED \<Longrightarrow> new \<noteq> FAILED \<Longrightarrow> kept True t (update_status new t)"
  by (simp add: kept_def same_setup_def update_status_def filter_status_calls)

lemma kept_pause: "pause t = Inr t' \<Longrightarrow> kept True t t'"
  by (auto simp: pause_def Let_def kept_def same_setup_def update_status_def
      filter_status_calls split: if_splits)

lemma kept_resume: "resume now t = Inr t' \<Longrightarrow> kept False t t'"
  by (auto simp: resume_def Let_def kept_def same_setup_def update_status_def
      filter_status_calls split: if_splits option.splits)

lemma kept_stop: "kept True t (stop t)"
  by (simp add: stop_def kept_def same_setup_def update_status_def filter_status_calls)

lemma kept_update_next_run_time:
  "update_next_run_time now t = Some t' \<Longrightarrow>
   same_setup t t' \<and> last_run t' = last_run t \<and> calls t' = calls t \<and>
   error_count t' = error_count t \<and> status t' = status t \<and>
   stop_event t' = stop_event t \<and> pause_event t' = pause_event t \<and>
   execution_start_time t' = execution_start_time t"
  by (auto simp: update_next_run_time_def Let_def same_setup_def
      split: option.splits list.splits)

lemma kept_reset: "reset now t = Some t' \<Longrightarrow> kept False t t'"
  by (auto simp: reset_def kept_def same_setup_def update_status_def filter_status_calls
      dest!: kept_update_next_run_time)

lemma kept_control: "apply_control c t = Some t' \<Longrightarrow> kept (quiet c) t t'"
proof (cases c)
  case Pause
  assume "apply_control c t = Some t'"
  with Pause show ?thesis
    by (auto simp: kept_refl kept_pause split: sum.splits)
next
  case (Resume now)
  assume "apply_control c t = Some t'"
  with Resume show ?thesis
    by (auto simp: kept_refl kept_resume split: sum.splits)
next
  case Stop
  assume "apply_control c t = Some t'"
  with Stop show ?thesis by (auto simp: kept_stop)
next
  case (Reset now)
  assume "apply_control c t = Some t'"
  with Reset show ?thesis by (auto simp: kept_reset)
qed

lemma kept_wait: "wait_pause cs t = Some t' \<Longrightarrow> kept (list_all quiet cs) t t'"
proof (induction cs arbitrary: t)
  case Nil
  then show ?case by (auto simp: kept_refl split: if_splits)
next
  case (Cons c cs)
  show ?case
  proof (cases "pause_event t")
    case True
    with Cons.prems show ?thesis by (simp add: kept_refl)
  next
    case False
    with Cons.prems obtain u where u: "apply_control c t = Some u" "wait_pause cs u = Some t'"
      by (auto split: option.splits)
    from kept_trans [OF kept_control [OF u(1)] Cons.IH [OF u(2)]]
    show ?thesis by simp
  qed
qed

lemma kept_check:
  assumes "check_interrupt cs t = Some (b, t')"
  shows "kept (list_all quiet cs) t t'"
proof (cases "stop_event t \<or> pause_event t")
  case True
  with assms show ?thesis by (auto simp: check_interrupt_def kept_refl split: if_splits)
next
  case False
  with assms obtain u where u: "wait_pause cs (update_status PAUSED t) = Some u"
    and t': "t' = u \<or> t' = update_status PENDING u"
    by (auto simp: check_interrupt_def split: option.splits if_splits)
  have "kept True t (update_status PAUSED t)" by (simp add: kept_update_status)
  from kept_trans [OF this kept_wait [OF u]] have 1: "kept (list_all quiet cs) t u" by simp
  from t' show ?thesis
  proof
    assume "t' = u" with 1 show ?thesis by simp
  next
    assume *: "t' = update_status PENDING u"
    have "kept True u (update_status PENDING u)" by (simp add: kept_update_status)
    from kept_trans [OF 1 this] * show ?thesis by simp
  qed
qed

lemma kept_body: "body_events es t = Some t' \<Longrightarrow> kept (list_all quiet_event es) t t'"
proof (induction es t rule: body_events.induct)
  case (1 t)
  then show ?case by (simp add: kept_refl)
next
  case (2 c es t)
  from "2.prems" obtain u where u: "apply_control c t = Some u" "body_events es u = Some t'"
    by (auto split: option.splits)
  from kept_trans [OF kept_control [OF u(1)] "2.IH" [OF u]] show ?case by simp
next
  case (3 wake es t)
  show ?case
  proof (cases "supports_interrupt t")
    case True
    with "3.prems" obtain b u where u: "check_interrupt wake t = Some (b, u)"
      "body_events es u = Some t'"
      by (auto split: option.splits)
    from "3.IH"(1) [OF True u(1) refl u(2)] kept_trans [OF kept_check [OF u(1)]]
    show ?thesis by simp
  next
    case False
    with "3.prems" have "body_events es t = Some t'" by simp
    from "3.IH"(2) [OF False this] show ?thesis by (rule kept_weaken) simp
  qed
qed


lemma wait_pause_set: "wait_pause cs t = Some u \<Longrightarrow> pause_event u"
  by (induction cs arbitrary: t) (auto split: if_splits option.splits)

lemma check_interrupt_passed:
  assumes "check_interrupt cs t = Some (True, u)"
  shows "\<not> stop_event u \<and> pause_event u"
  using assms
  by (auto simp: check_interrupt_def update_status_def split: if_splits option.splits
      dest: wait_pause_set)

lemma check_interrupt_again:
  "\<not> stop_event u \<Longrightarrow> pause_event u \<Longrightarrow> check_interrupt cs u = Some (True, u)"
  by (simp add: check_interrupt_def)


lemma run_cases:
  assumes "run env t = Some (r, t')"
  obtains
    (before) "check_interrupt (wake_first env) t = Some (False, t')" "\<not> r"
  | (failed) t1 t4 where "check_interrupt (wake_first env) t = Some (True, t1)"
      "body_events (body env) (started env t1) = Some t4" "result env = Raises"
      "t' = run_failed t4" "\<not> r"
  | (after) t1 t4 where "check_interrupt (wake_first env) t = Some (True, t1)"
      "body_events (body env) (started env t1) = Some t4" "result env = Returns"
      "check_interrupt (wake_last env) t4 = Some (False, t')" "\<not> r"
  | (timeout) t1 t4 where "check_interrupt (wake_first env) t = Some (True, t1)"
      "body_events (body env) (started env t1) = Some t4" "result env = Returns"
      "check_interrupt (wake_last env) t4 = Some (True, t')"
      "\<not> check_execution_time (t_check env) t'" "\<not> r"
  | (completed) t1 t4 t5 where "check_interrupt (wake_first env) t = Some (True, t1)"
      "body_events (body env) (started env t1) = Some t4" "result env = Returns"
      "check_interrupt (wake_last env) t4 = Some (True, t5)"
      "check_execution_time (t_check env) t5"
      "run_completed (t_done env) (t_next env) t5 = Some t'" "r"
proof -
  from assms obtain b t1 where c1: "check_interrupt (wake_first env) t = Some (b, t1)"
    by (auto simp: run_def split: option.splits)
  show thesis
  proof (cases b)
    case False
    with assms c1 have "t' = t1" "\<not> r" by (auto simp: run_def)
    with c1 False before show thesis by simp
  next
    case True
    with c1 have c1': "check_interrupt (wake_first env) t = Some (True, t1)" by simp
    from check_interrupt_passed [OF c1'] have c2: "check_interrupt [] t1 = Some (True, t1)"
      by (simp add: check_interrupt_again)
    from assms c1' c2 obtain t4 where b: "body_events (body env) (started env t1) = Some t4"
      by (auto simp: run_def started_def Let_def split: option.splits)
    show thesis
    proof (cases "result env")
      case Raises
      with assms c1' c2 b have "t' = run_failed t4" "\<not> r"
        by (auto simp: run_def started_def Let_def)
      with c1' b Raises failed show thesis by auto
    next
      case Returns
      with assms c1' c2 b obtain b3 t5 where c3: "check_interrupt (wake_last env) t4 = Some (b3, t5)"
        by (auto simp: run_def started_def Let_def split: option.splits)
      show thesis
      proof (cases b3)
        case False
        with assms c1' c2 b Returns c3 have "t' = t5" "\<not> r"
          by (auto simp: run_def started_def Let_def)
        with c1' b Returns c3 False after show thesis by auto
      next
        case b3: True
        show thesis
        proof (cases "check_execution_time (t_check env) t5")
          case False
          with assms c1' c2 b Returns c3 b3 have "t' = t5" "\<not> r"
            by (auto simp: run_def started_def Let_def)
          with c1' b Returns c3 b3 False timeout show thesis by auto
        next
          case True
          with assms c1' c2 b Returns c3 b3
          have "run_completed (t_done env) (t_next env) t5 = Some t'" "r"
            by (auto simp: run_def started_def Let_def split: option.splits)
          with c1' b Returns c3 b3 True completed show thesis by auto
        qed
      qed
    qed
  qed
qed

lemma kept_started: "kept True t (started env t)"
  by (simp add: started_def kept_def same_setup_def update_status_def filter_status_calls)

lemma kept_to_body:
  assumes "check_interrupt (wake_first env) t = Some (True, t1)"
    "body_events (body env) (started env t1) = Some t4"
  shows "kept (list_all quiet (wake_first env) \<and> list_all quiet_event (body env)) t t4"
proof -
  from kept_trans [OF kept_check [OF assms(1)] kept_started]
  have "kept (list_all quiet (wake_first env)) t (started env t1)" by simp
  from kept_trans [OF this kept_body [OF assms(2)]] show ?thesis .
qed


lemmas example_defs = example_task_def PeriodicTask_init_def BaseTask_init_def plain_env_def
  started_def update_status_def

lemma stopped_operation:
  assumes "status t = STOPPED" "stop_event t" "\<not> is_reset op"
  shows "\<exists>t'. apply_operation op t = Some t' \<and> status t' = STOPPED \<and> stop_event t'"
proof (cases op)
  case (Run env)
  with assms show ?thesis by (simp add: run_def check_interrupt_def)
next
  case (Call c)
  with assms show ?thesis
    by (cases c) (simp_all add: pause_def resume_def stop_def update_status_def)
qed

lemma stopped_operations:
  assumes "status t = STOPPED" "stop_event t" "\<not> list_ex is_reset ops"
  shows "\<exists>t'. apply_operations ops t = Some t' \<and> status t' = STOPPED \<and> stop_event t'"
  using assms
proof (induction ops arbitrary: t)
  case Nil
  then show ?case by simp
next
  case (Cons op ops)
  from Cons.prems have "\<not> is_reset op" by simp
  from stopped_operation [OF Cons.prems(1,2) this]
  obtain u where u: "apply_operation op t = Some u" "status u = STOPPED" "stop_event u" by blast
  from Cons.prems have "\<not> list_ex is_reset ops" by simp
  from Cons.IH [OF u(2,3) this] u(1) show ?case by simp
qed

lemma same_setup_trans: "same_setup t u \<Longrightarrow> same_setup u v \<Longrightarrow> same_setup t v"
  by (simp add: same_setup_def)

lemma window_loop_total:
  assumes "\<forall>v \<in> set (w # ws). well_formed v"
  shows "\<exists>r. window_loop w ws b = Some r \<and> any_in_window (w # ws) r"
proof (cases "any_in_window (w # ws) b")
  case True
  then show ?thesis by (simp add: window_loop_inside)
next
  case False
  from window_loop_outside [OF assms False] min_window_start_props(1) [OF assms]
  show ?thesis by simp
qed

lemma update_next_run_time_in_window:
  assumes "interval t = Some i" "time_windows t \<noteq> []" "\<forall>w \<in> set (time_windows t). well_formed w"
  shows "\<exists>t' n. update_next_run_time now t = Some t' \<and> next_run t' = Some n \<and>
           any_in_window (time_windows t) n"
proof -
  from assms(2) obtain w ws where ws: "time_windows t = w # ws" by (cases "time_windows t") auto
  with assms(3) have wf: "\<forall>v \<in> set (w # ws). well_formed v" by simp
  from window_loop_total [OF wf]
  obtain r where "window_loop w ws (case last_run t of None \<Rightarrow> now | Some l \<Rightarrow> l + i) = Some r"
    "any_in_window (w # ws) r" by blast
  with assms(1) ws show ?thesis by (simp add: update_next_run_time_def)
qed

lemma run_completed_frame:
  assumes "run_completed d n t = Some t'"
  shows "same_setup t t' \<and> error_count t' = error_count t \<and> status t' = COMPLETED \<and>
         stop_event t' = stop_event t \<and> pause_event t' = pause_event t \<and>
         last_run t' = Some d"
  using assms
  by (auto simp: run_completed_def Let_def update_status_def same_setup_def
      split: option.splits dest!: kept_update_next_run_time)

lemma run_completed_in_window:
  assumes "run_completed d now t = Some t'" "interval t = Some i" "time_windows t \<noteq> []"
    "\<forall>w \<in> set (time_windows t). well_formed w"
  shows "\<exists>n. next_run t' = Some n \<and> any_in_window (time_windows t) n"
proof -
  let ?t2 = "(update_status COMPLETED (t \<lparr> execution_start_time := None \<rparr>)) \<lparr> last_run := Some d \<rparr>"
  have s: "interval ?t2 = Some i" "time_windows ?t2 \<noteq> []" "\<forall>w \<in> set (time_windows ?t2). well_formed w"
    "time_windows ?t2 = time_windows t"
    using assms(2-4) by (simp_all add: update_status_def)
  from update_next_run_time_in_window [OF s(1-3), of now] obtain t3 n where
    "update_next_run_time now ?t2 = Some t3" "next_run t3 = Some n" "any_in_window (time_windows t) n"
    unfolding s(4) by blast
  with assms(1) show ?thesis by (auto simp: run_completed_def Let_def)
qed

lemma run_failed_frame:
  "same_setup t (run_failed t) \<and> error_count (run_failed t) = error_count t + 1 \<and>
   status (run_failed t) = FAILED \<and> last_run (run_failed t) = last_run t \<and>
   next_run (run_failed t) = next_run t \<and> execution_start_time (run_failed t) = None \<and>
   calls (run_failed t) =
     (calls t @ map (\<lambda>cb. StatusChange cb (status t) FAILED) (on_status_change_callbacks t)) @
       map Failure (on_failure_callbacks t)"
  by (simp add: run_failed_def Let_def update_status_def same_setup_def)

lemma kept_setup: "kept q t t' \<Longrightarrow> same_setup t t'"
  by (simp add: kept_def)

lemma run_same_setup:
  assumes "run env t = Some (r, t')"
  shows "same_setup t t'"
  using assms
proof (cases rule: run_cases)
  case before
  from kept_check [OF before(1)] show ?thesis by (rule kept_setup)
next
  case (failed t1 t4)
  from kept_setup [OF kept_to_body [OF failed(1,2)]] run_failed_frame [of t4] failed(4)
  show ?thesis by (auto intro: same_setup_trans)
next
  case (after t1 t4)
  from kept_trans [OF kept_to_body [OF after(1,2)] kept_check [OF after(4)]]
  show ?thesis by (rule kept_setup)
next
  case (timeout t1 t4)
  from kept_trans [OF kept_to_body [OF timeout(1,2)] kept_check [OF timeout(4)]]
  show ?thesis by (rule kept_setup)
next
  case (completed t1 t4 t5)
  from kept_trans [OF kept_to_body [OF completed(1,2)] kept_check [OF completed(4)]]
  have "same_setup t t5" by (rule kept_setup)
  with run_completed_frame [OF completed(6)] show ?thesis by (auto intro: same_setup_trans)
qed

lemma run_success_frame:
  assumes "run env t = Some (True, t')"
  shows "error_count t' \<le> error_count t \<and> status t' = COMPLETED"
  using assms
proof (cases rule: run_cases)
  case (completed t1 t4 t5)
  from kept_trans [OF kept_to_body [OF completed(1,2)] kept_check [OF completed(4)]]
  have "error_count t5 \<le> error_count t" by (simp add: kept_def)
  with run_completed_frame [OF completed(6)] show ?thesis by simp
qed simp_all

lemma run_success_in_window:
  assumes "run env t = Some (True, t')" "interval t = Some i" "time_windows t \<noteq> []"
    "\<forall>w \<in> set (time_windows t). well_formed w"
  shows "\<exists>n. next_run t' = Some n \<and> any_in_window (time_windows t) n"
  using assms(1)
proof (cases rule: run_cases)
  case (completed t1 t4 t5)
  from kept_trans [OF kept_to_body [OF completed(1,2)] kept_check [OF completed(4)]]
  have "same_setup t t5" by (rule kept_setup)
  then have s: "interval t5 = interval t" "time_windows t5 = time_windows t"
    by (simp_all add: same_setup_def)
  from run_completed_in_window [OF completed(6), of i] assms(2-4) s show ?thesis by simp
qed simp_all

lemma reset_in_window:
  assumes "interval t = Some i" "time_windows t \<noteq> []" "\<forall>w \<in> set (time_windows t). well_formed w"
  shows "\<exists>t' n. reset now t = Some t' \<and> next_run t' = Some n \<and> any_in_window (time_windows t) n"
proof -
  let ?u = "update_status PENDING (t \<lparr> stop_event := False, pause_event := True, error_count := 0 \<rparr>)"
  have s: "interval ?u = Some i" "time_windows ?u \<noteq> []" "\<forall>w \<in> set (time_windows ?u). well_formed w"
    "time_windows ?u = time_windows t"
    using assms by (simp_all add: update_status_def)
  from update_next_run_time_in_window [OF s(1-3), of now] show ?thesis
    unfolding s(4) reset_def .
qed







lemma run_after_body:
  assumes "check_interrupt (wake_first env) t = Some (True, t1)"
    "body_events (body env) (started env t1) = Some t4"
  shows "run env t =
     (if result env = Raises then Some (False, run_failed t4)
      else (case check_interrupt (wake_last env) t4 of
              None \<Rightarrow> None
            | Some (False, t5) \<Rightarrow> Some (False, t5)
            | Some (True, t5) \<Rightarrow>
                if \<not> check_execution_time (t_check env) t5 then Some (False, t5)
                else (case run_completed (t_done env) (t_next env) t5 of
                        None \<Rightarrow> None
                      | Some t6 \<Rightarrow> Some (True, t6))))"
proof -
  from check_interrupt_passed [OF assms(1)] have "check_interrupt [] t1 = Some (True, t1)"
    by (simp add: check_interrupt_again)
  with assms show ?thesis by (simp add: run_def started_def Let_def)
qed

lemmas watched_defs = watched_task_def add_failure_callback_def add_status_change_callback_def
  example_defs stopping_env_def raising_env_def


lemma raising_run:
  "check_interrupt (wake_first raising_env) watched_task = Some (True, watched_task)"
  "body_events (body raising_env) (started raising_env watched_task) =
     Some (started raising_env watched_task)"
  "result raising_env = Raises" "quiet_env raising_env"
  by (simp_all add: check_interrupt_def watched_defs quiet_env_def)

lemma polls_idle:
  "\<not> stop_event t \<Longrightarrow> pause_event t \<Longrightarrow> list_all is_poll es \<Longrightarrow> body_events es t = Some t"
proof (induction es)
  case Nil
  then show ?case by simp
next
  case (Cons e es)
  then show ?case by (cases e) (simp_all add: check_interrupt_def)
qed

lemma not_ready_running: "status t = RUNNING \<Longrightarrow> \<not> is_ready env t"
  by (simp add: is_ready_def)

lemma set_insert_sorted: "set (insert_sorted lt x xs) = insert x (set xs)"
  by (induction xs) auto

lemma set_list_sort: "set (list_sort lt xs) = set xs"
  by (induction xs) (simp_all add: set_insert_sorted)

lemma set_alist_update: "set (AList.update k v al) \<subseteq> insert (k, v) (set al)"
  by (induction al) auto

lemma alist_update_other: "(j, u) \<in> set al \<Longrightarrow> j \<noteq> k \<Longrightarrow> (j, u) \<in> set (AList.update k v al)"
  by (induction al) auto

lemma run_ready_skips:
  assumes "run_ready env ts s = Some (ex, s')" "\<forall>t \<in> set ts. task_id t \<noteq> task_id x"
    "only_entry x s"
  shows "task_id x \<notin> set ex \<and> only_entry x s'"
  using assms
proof (induction ts arbitrary: s ex)
  case Nil
  then show ?case by simp
next
  case (Cons t ts)
  show ?case
  proof (cases "sched_stop_event s")
    case True
    with Cons.prems show ?thesis by simp
  next
    case False
    let ?k = "task_id t"
    from Cons.prems(1) False obtain r t' where r: "run (cycle env ?k) t = Some (r, t')"
      by (auto split: option.splits)
    let ?s2 = "s \<lparr> tasks := AList.update ?k t' (tasks s),
                  sched_stop_event := sched_stop_event s \<or> stop_during env ?k \<rparr>"
    from Cons.prems(1) False r obtain ex2 where
      rr: "run_ready env ts ?s2 = Some (ex2, s')" and ex: "ex = ?k # ex2"
      by (auto split: option.splits)
    from Cons.prems(2) have ne: "?k \<noteq> task_id x" and rest: "\<forall>t \<in> set ts. task_id t \<noteq> task_id x"
      by simp_all
    from run_same_setup [OF r] have id: "task_id t' = ?k" by (simp add: same_setup_def)
    have "only_entry x ?s2"
      unfolding only_entry_def
    proof (intro conjI ballI)
      from Cons.prems(3) ne show "(task_id x, x) \<in> set (tasks ?s2)"
        by (auto simp: only_entry_def intro: alist_update_other)
    next
      fix p assume "p \<in> set (tasks ?s2)"
      with set_alist_update [of ?k t' "tasks s"] have "p = (?k, t') \<or> p \<in> set (tasks s)"
        by auto
      with Cons.prems(3) id ne show "case p of (k, v) \<Rightarrow> task_id v = task_id x \<longrightarrow> v = x"
        by (auto simp: only_entry_def)
    qed
    from Cons.IH [OF rr rest this] ex ne show ?thesis by auto
  qed
qed

lemma tick_skips:
  assumes "tick env s = Some (ex, s')" "only_entry x s" "status x = RUNNING"
  shows "task_id x \<notin> set ex \<and> only_entry x s'"
proof -
  from assms(1) obtain s1 where rr: "run_ready env (ready_tasks env s) s = Some (ex, s1)"
    and s': "s' = s1 \<lparr> sched_stop_event := sched_stop_event s1 \<or> stop_in_wait env \<rparr>"
    by (auto simp: tick_def split: option.splits)
  have "\<forall>t \<in> set (ready_tasks env s). task_id t \<noteq> task_id x"
  proof
    fix t assume "t \<in> set (ready_tasks env s)"
    then have m: "t \<in> snd ` set (tasks s)" and rdy: "is_ready env t"
      by (auto simp: ready_tasks_def snapshot_def set_list_sort)
    show "task_id t \<noteq> task_id x"
    proof
      assume "task_id t = task_id x"
      with m assms(2) have "t = x" by (auto simp: only_entry_def)
      with rdy assms(3) show False by (simp add: not_ready_running)
    qed
  qed
  from run_ready_skips [OF rr this assms(2)] s' show ?thesis by (simp add: only_entry_def)
qed

lemma ticks_skip:
  assumes "ticks envs n s = Some (ex, s')" "only_entry x s" "status x = RUNNING"
  shows "task_id x \<notin> set ex \<and> only_entry x s'"
  using assms(1)
proof (induction n arbitrary: ex s')
  case 0
  with assms(2) show ?case by simp
next
  case (Suc n)
  from Suc.prems obtain ex1 s1 where 1: "ticks envs n s = Some (ex1, s1)"
    by (auto split: option.splits)
  from Suc.IH [OF 1] have ih: "task_id x \<notin> set ex1" "only_entry x s1" by simp_all
  show ?case
  proof (cases "sched_stop_event s1")
    case True
    with Suc.prems 1 ih show ?thesis by simp
  next
    case False
    with Suc.prems 1 obtain ex2 where 2: "tick (envs n) s1 = Some (ex2, s')" "ex = ex1 @ ex2"
      by (auto split: option.splits)
    from tick_skips [OF 2(1) ih(2) assms(3)] ih(1) 2(2) show ?thesis by simp
  qed
qed

section \<open>Facts about the dispatcher\<close>

lemma insert_sorted_insort:
  "insert_sorted task_lt x xs = insort_key (\<lambda>t. - priority_value (priority t)) x xs"
  by (induction xs) (auto simp: task_lt_def)

lemma list_sort_sort_key:
  "list_sort task_lt xs = sort_key (\<lambda>t. - priority_value (priority t)) xs"
  by (induction xs) (simp_all add: insert_sorted_insort)

lemma priority_value_inj: "priority_value p = priority_value q \<longleftrightarrow> p = q"
  by (cases p; cases q) simp_all

lemma list_sort_descending:
  "sorted_wrt (\<lambda>a b. priority_value (priority a) \<ge> priority_value (priority b))
     (list_sort task_lt xs)"
proof -
  have "sorted (map (\<lambda>t. - priority_value (priority t)) (list_sort task_lt xs))"
    unfolding list_sort_sort_key by (rule sorted_sort_key)
  then show ?thesis by (simp add: sorted_map)
qed

lemma list_sort_mset: "mset (list_sort task_lt xs) = mset xs"
  unfolding list_sort_sort_key by simp

lemma list_sort_stable:
  "filter (\<lambda>t. priority t = p) (list_sort task_lt xs) = filter (\<lambda>t. priority t = p) xs"
proof -
  have e: "(\<lambda>t. priority t = p) =
      (\<lambda>t. - priority_value (priority t) = - priority_value p)"
    by (simp add: priority_value_inj)
  show ?thesis unfolding list_sort_sort_key e by (rule sort_key_stable)
qed

lemma list_sort_four:
  assumes "priority a = LOW" "priority b = CRITICAL" "priority c = NORMAL" "priority d = HIGH"
  shows "list_sort task_lt [a, b, c, d] = [b, d, c, a]"
  using assms by (simp add: task_lt_def)

lemma run_ready_prefix:
  "run_ready env ts s = Some (ex, s') \<Longrightarrow> \<exists>k. ex = map task_id (take k ts)"
proof (induction ts arbitrary: s ex)
  case Nil
  then show ?case by simp
next
  case (Cons t ts)
  show ?case
  proof (cases "sched_stop_event s")
    case True
    with Cons.prems have "ex = map task_id (take 0 (t # ts))" by simp
    then show ?thesis by blast
  next
    case False
    with Cons.prems obtain s2 ex2 where
      rr: "run_ready env ts s2 = Some (ex2, s')" and ex: "ex = task_id t # ex2"
      by (auto split: option.splits)
    from Cons.IH [OF rr] obtain k where "ex2 = map task_id (take k ts)" by blast
    with ex have "ex = map task_id (take (Suc k) (t # ts))" by simp
    then show ?thesis by blast
  qed
qed

lemma run_ready_all:
  "run_ready env ts s = Some (ex, s') \<Longrightarrow> \<not> sched_stop_event s \<Longrightarrow>
   \<forall>k. \<not> stop_during env k \<Longrightarrow> ex = map task_id ts"
proof (induction ts arbitrary: s ex)
  case Nil
  then show ?case by simp
next
  case (Cons t ts)
  from Cons.prems(1,2) obtain t' ex2 where
    rr: "run_ready env ts
           (s \<lparr> tasks := AList.update (task_id t) t' (tasks s),
                sched_stop_event := sched_stop_event s \<or> stop_during env (task_id t) \<rparr>) =
         Some (ex2, s')"
    and ex: "ex = task_id t # ex2"
    by (auto split: option.splits)
  from Cons.IH [OF rr _ Cons.prems(3)] Cons.prems(2,3) ex show ?case by simp
qed

lemma run_late:
  "run late_env (task_of k p) =
     Some (True, the (run_completed 4000004 4000005 (started late_env (task_of k p))))"
  by (simp add: run_def check_interrupt_def check_execution_time_def run_completed_def
      update_next_run_time_def late_env_def task_of_def PeriodicTask_init_def BaseTask_init_def
      update_status_def started_def Let_def)

lemma four_snapshot:
  "snapshot due_tick four_tasks =
     [task_of ''t-low'' LOW, task_of ''t-critical'' CRITICAL, task_of ''t-normal'' NORMAL,
      task_of ''t-high'' HIGH]"
  by (simp add: snapshot_def four_tasks_def add_task_def Scheduler_init_def is_ready_def
      is_in_time_window_def due_tick_def task_of_def PeriodicTask_init_def BaseTask_init_def)

lemma four_ready:
  "ready_tasks due_tick four_tasks =
     [task_of ''t-critical'' CRITICAL, task_of ''t-high'' HIGH, task_of ''t-normal'' NORMAL,
      task_of ''t-low'' LOW]"
  unfolding ready_tasks_def four_snapshot
  by (rule list_sort_four) (simp_all add: task_of_def PeriodicTask_init_def BaseTask_init_def)

lemma four_tick:
  "map_option fst (tick due_tick four_tasks) =
     Some [''t-critical'', ''t-high'', ''t-normal'', ''t-low'']"
proof -
  have c: "cycle due_tick = (\<lambda>k. late_env)" "stop_during due_tick = (\<lambda>k. False)"
    by (simp_all add: due_tick_def)
  have i: "task_id (task_of k p) = k" for k p
    by (simp add: task_of_def PeriodicTask_init_def BaseTask_init_def)
  have s: "\<not> sched_stop_event four_tasks"
    by (simp add: four_tasks_def add_task_def Scheduler_init_def)
  show ?thesis
    by (simp add: tick_def four_ready c i s run_late split: option.splits prod.splits)
qed

lemma update_next_run_time_total:
  assumes "\<forall>w \<in> set (time_windows t). well_formed w"
  shows "\<exists>t'. update_next_run_time now t = Some t'"
proof (cases "interval t")
  case None
  then show ?thesis by (simp add: update_next_run_time_def)
next
  case (Some i)
  show ?thesis
  proof (cases "time_windows t")
    case Nil
    with Some show ?thesis by (simp add: update_next_run_time_def)
  next
    case (Cons w ws)
    with assms have "\<forall>v \<in> set (w # ws). well_formed v" by simp
    from window_loop_total [OF this]
    obtain r where "window_loop w ws (case last_run t of None \<Rightarrow> now | Some l \<Rightarrow> l + i) = Some r"
      by blast
    with Some Cons show ?thesis by (simp add: update_next_run_time_def)
  qed
qed

lemma reset_returns:
  assumes "\<forall>w \<in> set (time_windows t). well_formed w"
  shows "\<exists>t'. reset now t = Some t' \<and> status t' = PENDING \<and> \<not> stop_event t'"
proof -
  let ?u = "update_status PENDING (t \<lparr> stop_event := False, pause_event := True, error_count := 0 \<rparr>)"
  have "\<forall>w \<in> set (time_windows ?u). well_formed w"
    using assms by (simp add: update_status_def)
  from update_next_run_time_total [OF this, of now] obtain t' where
    t': "update_next_run_time now ?u = Some t'" by blast
  from kept_update_next_run_time [OF t'] have "status t' = PENDING \<and> \<not> stop_event t'"
    by (simp add: update_status_def)
  with t' show ?thesis by (simp add: reset_def)
qed

lemma stopped_rejects:
  assumes "status t = STOPPED" "stop_event t"
  shows "pause t = Inl (TaskControlError ''Cannot pause a stopped task'')"
    and "resume now t = Inl (TaskControlError ''Cannot resume a stopped task'')"
    and "run env t = Some (False, t)"
    and "status (stop t) = STOPPED"
  using assms
  by (simp_all add: pause_def resume_def run_def check_interrupt_def stop_def update_status_def)



section \<open>The window calculus\<close>

text \<open>
  C5.  For a window whose two ends are times of day, \<open>next_window_start w t\<close> is the
  least instant from \<open>t\<close> on at which \<open>is_in_window\<close> holds: it is not before \<open>t\<close>, it is
  in the window, and no instant from \<open>t\<close> on that is in the window is earlier.  An instant
  already in the window is returned unchanged, and past the end of a window that does not
  wrap the result is the window's start on the next day.
\<close>

theorem next_window_start_least:
  assumes "well_formed w"
  shows "t \<le> next_window_start w t \<and> is_in_window w (next_window_start w t) \<and>
         (\<forall>u. t \<le> u \<and> is_in_window w u \<longrightarrow> next_window_start w t \<le> u) \<and>
         (is_in_window w t \<longrightarrow> next_window_start w t = t) \<and>
         (start_time w \<le> end_time w \<and> end_time w < time_of t \<longrightarrow>
            next_window_start w t = combine (date_of t + 1) (start_time w))"
proof (intro conjI allI impI)
  show "t \<le> next_window_start w t" by (rule nws_ge [OF assms])
  show "is_in_window w (next_window_start w t)" by (rule nws_in_window [OF assms])
  show "next_window_start w t \<le> u" if "t \<le> u \<and> is_in_window w u" for u
    using that nws_least [OF assms] by blast
  show "next_window_start w t = t" if "is_in_window w t"
    using that by (rule nws_fixed)
  show "next_window_start w t = combine (date_of t + 1) (start_time w)"
    if "start_time w \<le> end_time w \<and> end_time w < time_of t"
    using that by (simp add: next_window_start_def Let_def combine_next_day)
qed

theorem next_window_start_least_witness:
  "well_formed office_hours \<and>
   start_time office_hours \<le> end_time office_hours \<and>
   end_time office_hours < time_of 72000000000 \<and>
   next_window_start office_hours 72000000000 = 118800000000 \<and>
   is_in_window office_hours 118800000000 \<and>
   (72000000000 :: int) \<le> 122400000000 \<and> is_in_window office_hours 122400000000 \<and>
   next_window_start office_hours 72000000000 \<le> 122400000000 \<and>
   is_in_window office_hours 43200000000 \<and>
   next_window_start office_hours 43200000000 = 43200000000"
proof -
  have wf: "well_formed office_hours"
    by (simp add: well_formed_def office_hours_def valid_time_def DAY_def)
  have past: "start_time office_hours \<le> end_time office_hours \<and>
      end_time office_hours < time_of 72000000000"
    by (simp add: office_hours_def time_of_def DAY_def)
  have later: "(72000000000 :: int) \<le> 122400000000 \<and> is_in_window office_hours 122400000000"
    by (simp add: is_in_window_def office_hours_def time_of_def DAY_def)
  have noon: "is_in_window office_hours 43200000000"
    by (simp add: is_in_window_def office_hours_def time_of_def DAY_def)
  have v: "combine (date_of 72000000000 + 1) (start_time office_hours) = 118800000000"
    by (simp add: office_hours_def date_of_def combine_def DAY_def)
  from next_window_start_least [OF wf, of 72000000000] past later v
  have a: "next_window_start office_hours 72000000000 = 118800000000 \<and>
      is_in_window office_hours 118800000000 \<and>
      next_window_start office_hours 72000000000 \<le> 122400000000"
    by metis
  from next_window_start_least [OF wf, of 43200000000] noon
  have b: "next_window_start office_hours 43200000000 = 43200000000"
    by blast
  from wf past later noon a b show ?thesis by blast
qed

text \<open>
  C9.  With at least one window, all of them with times of day as ends, and a base
  instant outside all of them, the loop of \<^verbatim>\<open>_update_next_run_time\<close> ends: it returns
  after one advance, to the least of the windows' next starts, which is in one of the
  windows, not before the base instant and less than one day after it.
\<close>

theorem window_loop_terminates:
  assumes "\<forall>v \<in> set (w # ws). well_formed v" "\<not> any_in_window (w # ws) base"
  shows "\<exists>r. window_loop w ws base = Some r \<and> r = min_window_start w ws base \<and>
             any_in_window (w # ws) r \<and> base \<le> r \<and> r < base + DAY"
  using window_loop_outside [OF assms] min_window_start_props [OF assms(1), of base] by simp

theorem window_loop_terminates_witness:
  "well_formed office_hours \<and> well_formed night_shift \<and>
   \<not> any_in_window [office_hours, night_shift] 72000000000 \<and>
   window_loop office_hours [night_shift] 72000000000 = Some 79200000000 \<and>
   any_in_window [office_hours, night_shift] 79200000000"
proof -
  have wf: "\<forall>v \<in> set [office_hours, night_shift]. well_formed v"
    by (simp add: well_formed_def office_hours_def night_shift_def valid_time_def DAY_def)
  have out: "\<not> any_in_window [office_hours, night_shift] 72000000000"
    by (simp add: any_in_window_def is_in_window_def office_hours_def night_shift_def
        time_of_def DAY_def)
  have m: "min_window_start office_hours [night_shift] 72000000000 = 79200000000"
    by (simp add: next_window_start_def office_hours_def night_shift_def Let_def time_of_def
        date_of_def combine_def DAY_def)
  show ?thesis using wf out window_loop_terminates [OF wf out] unfolding m by simp
qed

section \<open>The task state machine\<close>

text \<open>
  C3, as the code has it.  On a task that is neither STOPPED nor RUNNING, \<^verbatim>\<open>pause\<close>
  returns with status PAUSED.  On a RUNNING task it only clears the pause event and the
  status stays RUNNING.  On a PAUSED task with an interval, \<^verbatim>\<open>resume\<close> returns with
  status PENDING and \<open>next_run\<close> the instant of the call plus the interval.
\<close>

theorem pause_then_resume:
  assumes "status t \<noteq> STOPPED"
  shows "(status t \<noteq> RUNNING \<longrightarrow> (\<exists>t1. pause t = Inr t1 \<and> status t1 = PAUSED)) \<and>
         (status t = RUNNING \<longrightarrow>
            (\<exists>t1. pause t = Inr t1 \<and> status t1 = RUNNING \<and> \<not> pause_event t1)) \<and>
         (status t = PAUSED \<and> interval t = Some i \<longrightarrow>
            (\<exists>t2. resume now t = Inr t2 \<and> status t2 = PENDING \<and>
                  next_run t2 = Some (now + i)))"
  using assms by (simp add: pause_def resume_def Let_def update_status_def)

theorem pause_running_counterexample:
  "status (started plain_env example_task) \<noteq> STOPPED \<and>
   map_sum (\<lambda>e. e) status (pause (started plain_env example_task)) = Inr RUNNING"
  by (simp add: example_defs pause_def Let_def)

theorem pause_then_resume_witness:
  "status example_task \<noteq> STOPPED \<and> status example_task \<noteq> RUNNING \<and>
   map_sum (\<lambda>e. e) status (pause example_task) = Inr PAUSED \<and>
   status (started plain_env example_task) = RUNNING \<and>
   map_sum (\<lambda>e. e) status (pause (started plain_env example_task)) = Inr RUNNING \<and>
   status (update_status PAUSED example_task) = PAUSED \<and>
   interval (update_status PAUSED example_task) = Some 5000000 \<and>
   map_sum (\<lambda>e. e) next_run (resume 7 (update_status PAUSED example_task)) = Inr (Some 5000007)"
proof -
  have a: "status example_task \<noteq> STOPPED" "status example_task \<noteq> RUNNING"
    by (simp_all add: example_defs)
  have b: "status (started plain_env example_task) \<noteq> STOPPED"
    "status (started plain_env example_task) = RUNNING"
    by (simp_all add: example_defs)
  have c: "status (update_status PAUSED example_task) \<noteq> STOPPED"
    "status (update_status PAUSED example_task) = PAUSED"
    "interval (update_status PAUSED example_task) = Some 5000000"
    by (simp_all add: example_defs)
  from pause_then_resume [OF a(1), where i = 0 and now = 0] a(2)
  have 1: "map_sum (\<lambda>e. e) status (pause example_task) = Inr PAUSED" by auto
  from pause_then_resume [OF b(1), where i = 0 and now = 0] b(2)
  have 2: "map_sum (\<lambda>e. e) status (pause (started plain_env example_task)) = Inr RUNNING"
    by auto
  from pause_then_resume [OF c(1), where i = 5000000 and now = 7] c(2,3)
  have 3: "map_sum (\<lambda>e. e) next_run (resume 7 (update_status PAUSED example_task)) = Inr (Some 5000007)"
    by auto
  from a b c 1 2 3 show ?thesis by simp
qed

text \<open>
  C2, as the code has it.  Take the task as \<^verbatim>\<open>stop\<close> leaves it and any sequence of
  cycles and of calls of \<^verbatim>\<open>pause\<close>, \<^verbatim>\<open>resume\<close> and \<^verbatim>\<open>stop\<close> made one after
  another from then on.  The sequence returns and leaves the status STOPPED; on the task
  it leaves, \<^verbatim>\<open>pause\<close> and \<^verbatim>\<open>resume\<close> raise \<^verbatim>\<open>TaskControlError\<close>, a cycle
  returns False without touching the task, and \<^verbatim>\<open>stop\<close> sets STOPPED again.
  \<^verbatim>\<open>reset\<close> is the way out: with windows whose ends are times of day it returns,
  with the status PENDING and the stop event clear.  A cycle that was executing its body
  when \<^verbatim>\<open>stop\<close> was called is outside this statement.
\<close>

theorem stopped_stays_stopped:
  assumes "\<not> list_ex is_reset ops"
  shows "status (stop t) = STOPPED \<and>
         (\<exists>t'. apply_operations ops (stop t) = Some t' \<and> status t' = STOPPED \<and>
            pause t' = Inl (TaskControlError ''Cannot pause a stopped task'') \<and>
            resume now t' = Inl (TaskControlError ''Cannot resume a stopped task'') \<and>
            run env t' = Some (False, t') \<and> status (stop t') = STOPPED) \<and>
         ((\<forall>w \<in> set (time_windows t). well_formed w) \<longrightarrow>
            (\<exists>t'. reset now (stop t) = Some t' \<and> status t' = PENDING \<and> \<not> stop_event t'))"
proof -
  have s: "status (stop t) = STOPPED" "stop_event (stop t)"
    by (simp_all add: stop_def update_status_def)
  from stopped_operations [OF s assms] obtain t' where
    t': "apply_operations ops (stop t) = Some t'" "status t' = STOPPED" "stop_event t'" by blast
  have w: "time_windows (stop t) = time_windows t" by (simp add: stop_def update_status_def)
  have r: "\<exists>t'. reset now (stop t) = Some t' \<and> status t' = PENDING \<and> \<not> stop_event t'"
    if "\<forall>w \<in> set (time_windows t). well_formed w"
    using reset_returns [of "stop t" now] that w by simp
  from s(1) t'(1,2) stopped_rejects [OF t'(2,3)] r show ?thesis by blast
qed

theorem stopped_stays_stopped_witness:
  "\<not> list_ex is_reset [Call Pause, Run plain_env, Call (Resume 5), Call Stop] \<and>
   time_windows example_task = [] \<and>
   map_option status
     (apply_operations [Call Pause, Run plain_env, Call (Resume 5), Call Stop] (stop example_task))
   = Some STOPPED \<and>
   pause (stop example_task) = Inl (TaskControlError ''Cannot pause a stopped task'') \<and>
   resume 5 (stop example_task) = Inl (TaskControlError ''Cannot resume a stopped task'') \<and>
   map_option status (reset 50 (stop example_task)) = Some PENDING"
proof -
  have a: "\<not> list_ex is_reset [Call Pause, Run plain_env, Call (Resume 5), Call Stop]" by simp
  have b: "\<not> list_ex is_reset []" by simp
  have w: "time_windows example_task = []" by (simp add: example_defs)
  from stopped_stays_stopped [OF a, where t = example_task and now = 5 and env = plain_env]
  have 1: "map_option status
     (apply_operations [Call Pause, Run plain_env, Call (Resume 5), Call Stop] (stop example_task))
   = Some STOPPED" by auto
  from stopped_stays_stopped [OF b, where t = example_task and now = 5 and env = plain_env]
  have 2: "pause (stop example_task) = Inl (TaskControlError ''Cannot pause a stopped task'')"
    "resume 5 (stop example_task) = Inl (TaskControlError ''Cannot resume a stopped task'')"
    by auto
  from stopped_stays_stopped [OF b, where t = example_task and now = 50 and env = plain_env] w
  have 3: "map_option status (reset 50 (stop example_task)) = Some PENDING"
    by auto
  from a w 1 2 3 show ?thesis by simp
qed

theorem reset_leaves_stopped_counterexample:
  "status (stop example_task) = STOPPED \<and>
   map_option status (apply_operations [Call (Reset 50)] (stop example_task)) = Some PENDING"
  by (simp add: example_defs stop_def reset_def update_next_run_time_def)


text \<open>
  C4, as the code has it.  For a task with an interval and at least one window, all with
  times of day as ends, \<^verbatim>\<open>_update_next_run_time\<close> returns and leaves \<open>next_run\<close> in
  one of the windows; so do its two callers, \<^verbatim>\<open>reset\<close> and a cycle that completes.
  \<^verbatim>\<open>resume\<close> on a PAUSED task assigns the instant of the call plus the interval and
  the constructor assigns the instant of construction, whatever the windows are.
\<close>

theorem recomputed_next_run_in_window:
  assumes "interval t = Some i" "time_windows t \<noteq> []" "\<forall>w \<in> set (time_windows t). well_formed w"
  shows "(\<exists>t' n. update_next_run_time now t = Some t' \<and> next_run t' = Some n \<and>
            any_in_window (time_windows t) n) \<and>
         (\<exists>t' n. reset now t = Some t' \<and> next_run t' = Some n \<and>
            any_in_window (time_windows t) n) \<and>
         (\<forall>env t'. run env t = Some (True, t') \<longrightarrow>
            (\<exists>n. next_run t' = Some n \<and> any_in_window (time_windows t) n)) \<and>
         (status t = PAUSED \<longrightarrow>
            (\<exists>t'. resume now t = Inr t' \<and> next_run t' = Some (now + i))) \<and>
         next_run (PeriodicTask_init now k nm i b p (time_windows t) m) = Some now"
proof -
  have r: "\<exists>t'. resume now t = Inr t' \<and> next_run t' = Some (now + i)" if "status t = PAUSED"
    using that assms(1) by (simp add: resume_def Let_def update_status_def)
  have c: "next_run (PeriodicTask_init now k nm i b p (time_windows t) m) = Some now"
    by (simp add: PeriodicTask_init_def BaseTask_init_def)
  from update_next_run_time_in_window [OF assms] reset_in_window [OF assms]
    run_success_in_window [OF _ assms] r c show ?thesis by blast
qed

theorem recomputed_next_run_in_window_witness:
  "interval windowed_task = Some 1000000 \<and> time_windows windowed_task = [office_hours] \<and>
   well_formed office_hours \<and>
   map_option next_run (update_next_run_time 72000000000 windowed_task) = Some (Some 118800000000) \<and>
   any_in_window (time_windows windowed_task) 118800000000"
proof -
  have a: "interval windowed_task = Some 1000000" "time_windows windowed_task = [office_hours]"
    "last_run windowed_task = None"
    by (simp_all add: windowed_task_def PeriodicTask_init_def BaseTask_init_def)
  have wf: "well_formed office_hours"
    by (simp add: well_formed_def office_hours_def valid_time_def DAY_def)
  have b: "time_windows windowed_task \<noteq> []" "\<forall>w \<in> set (time_windows windowed_task). well_formed w"
    using a wf by simp_all
  have out: "\<not> any_in_window [office_hours] 72000000000"
    by (simp add: any_in_window_def is_in_window_def office_hours_def time_of_def DAY_def)
  have m: "min_window_start office_hours [] 72000000000 = 118800000000"
    by (simp add: next_window_start_def office_hours_def Let_def time_of_def
        date_of_def combine_def DAY_def)
  have wfs: "\<forall>v \<in> set [office_hours]. well_formed v" using wf by simp
  have v: "map_option next_run (update_next_run_time 72000000000 windowed_task) = Some (Some 118800000000)"
    using a window_loop_outside [OF wfs out] m by (simp add: update_next_run_time_def)
  from recomputed_next_run_in_window [OF a(1) b, of 72000000000] v a wf show ?thesis by auto
qed

theorem next_run_outside_window_counterexample:
  "time_windows windowed_task = [office_hours] \<and>
   next_run windowed_task = Some 72000000000 \<and>
   \<not> any_in_window (time_windows windowed_task) 72000000000 \<and>
   map_option next_run
     (apply_operations [Call Pause, Call (Resume 72000000000)] windowed_task) =
     Some (Some 72001000000) \<and>
   \<not> any_in_window (time_windows windowed_task) 72001000000"
  by (simp add: windowed_task_def PeriodicTask_init_def BaseTask_init_def pause_def resume_def
      update_status_def Let_def any_in_window_def is_in_window_def office_hours_def time_of_def
      DAY_def)


section \<open>Cycles\<close>




text \<open>
  C7.  When a cycle starts, the body's script runs to its end and the body raises,
  \<^verbatim>\<open>run\<close> returns False with the status FAILED, \<open>error_count\<close> one more than when
  the body raised, one call of each failure callback at the end of the calls, and
  \<open>last_run\<close> and \<open>next_run\<close> as they were; without \<^verbatim>\<open>resume\<close> or \<^verbatim>\<open>reset\<close>
  called meanwhile, \<open>error_count\<close> is one more and \<open>next_run\<close> the same as before
  the cycle.  A cycle that returns True never leaves \<open>error_count\<close> higher.
\<close>

theorem failed_cycle:
  assumes "check_interrupt (wake_first env) t = Some (True, t1)"
    "body_events (body env) (started env t1) = Some t4"
    "result env = Raises"
  shows "\<exists>t'. run env t = Some (False, t') \<and> status t' = FAILED \<and>
           error_count t' = error_count t4 + 1 \<and> error_count t' \<le> error_count t + 1 \<and>
           (\<exists>cs. calls t' = cs @ map Failure (on_failure_callbacks t)) \<and>
           last_run t' = last_run t \<and> next_run t' = next_run t4 \<and>
           (quiet_env env \<longrightarrow> error_count t' = error_count t + 1 \<and> next_run t' = next_run t) \<and>
           (\<forall>env2 t2 t3. run env2 t2 = Some (True, t3) \<longrightarrow> error_count t3 \<le> error_count t2)"
proof -
  have r: "run env t = Some (False, run_failed t4)"
    unfolding run_after_body [OF assms(1,2)] using assms(3) by simp
  have k: "kept (list_all quiet (wake_first env) \<and> list_all quiet_event (body env)) t t4"
    by (rule kept_to_body [OF assms(1,2)])
  then have s: "on_failure_callbacks t4 = on_failure_callbacks t" "last_run t4 = last_run t"
    "error_count t4 \<le> error_count t"
    by (simp_all add: kept_def same_setup_def)
  have q: "error_count t4 = error_count t \<and> next_run t4 = next_run t" if "quiet_env env"
    using k that by (simp add: kept_def quiet_env_def)
  have ok: "\<forall>env2 t2 t3. run env2 t2 = Some (True, t3) \<longrightarrow> error_count t3 \<le> error_count t2"
    using run_success_frame by blast
  from run_failed_frame [of t4] s q ok r show ?thesis by auto
qed

theorem failed_cycle_witness:
  "check_interrupt (wake_first raising_env) watched_task = Some (True, watched_task) \<and>
   body_events (body raising_env) (started raising_env watched_task) =
     Some (started raising_env watched_task) \<and>
   result raising_env = Raises \<and> quiet_env raising_env \<and>
   map_option fst (run raising_env watched_task) = Some False \<and>
   map_option (status \<circ> snd) (run raising_env watched_task) = Some FAILED \<and>
   map_option (error_count \<circ> snd) (run raising_env watched_task) =
     Some (error_count watched_task + 1) \<and>
   map_option (calls \<circ> snd) (run raising_env watched_task) =
     Some [StatusChange ''log'' PENDING RUNNING, StatusChange ''log'' RUNNING FAILED,
           Failure ''alert'']"
proof -
  have c: "calls (run_failed (started raising_env watched_task)) =
     [StatusChange ''log'' PENDING RUNNING, StatusChange ''log'' RUNNING FAILED,
           Failure ''alert'']"
    by (simp add: run_failed_def Let_def watched_defs)
  have r: "run raising_env watched_task = Some (False, run_failed (started raising_env watched_task))"
    unfolding run_after_body [OF raising_run(1,2)] using raising_run(3) by simp
  from failed_cycle [OF raising_run(1,2,3)] raising_run r c
  show ?thesis by auto
qed

text \<open>
  C10.  A cycle that starts with neither stop nor pause requested, during which no
  control call is made, whose body returns, and whose check after the body finds the
  time limit exceeded: \<^verbatim>\<open>run\<close> returns False and leaves the status RUNNING and the
  execution start set.  The ready filter rejects that task at every instant, and however
  many iterations the dispatcher makes, none runs it and none changes it.
\<close>

theorem timed_out_cycle:
  assumes "\<not> stop_event t" "pause_event t" "list_all is_poll (body env)" "result env = Returns"
    "max_running_time t = Some m" "m \<noteq> 0" "m < t_check env - t_start env"
  shows "run env t = Some (False, started env t) \<and>
         status (started env t) = RUNNING \<and>
         execution_start_time (started env t) = Some (t_start env) \<and>
         (\<forall>tenv. \<not> is_ready tenv (started env t)) \<and>
         (\<forall>envs n s ex s'. only_entry (started env t) s \<and> ticks envs n s = Some (ex, s') \<longrightarrow>
            task_id (started env t) \<notin> set ex \<and> only_entry (started env t) s')"
proof -
  let ?x = "started env t"
  have x: "\<not> stop_event ?x" "pause_event ?x" "status ?x = RUNNING"
    "execution_start_time ?x = Some (t_start env)" "max_running_time ?x = Some m"
    using assms by (simp_all add: started_def update_status_def)
  have 1: "check_interrupt (wake_first env) t = Some (True, t)"
    using assms(1,2) by (simp add: check_interrupt_again)
  have 2: "body_events (body env) ?x = Some ?x"
    by (rule polls_idle [OF x(1,2) assms(3)])
  have 3: "check_interrupt (wake_last env) ?x = Some (True, ?x)"
    using x(1,2) by (simp add: check_interrupt_again)
  have 4: "\<not> check_execution_time (t_check env) ?x"
    using x(4,5) assms(6,7) by (simp add: check_execution_time_def)
  have r: "run env t = Some (False, ?x)"
    unfolding run_after_body [OF 1 2] using assms(4) 3 4 by simp
  from r x(3,4) not_ready_running [OF x(3)] ticks_skip [OF _ _ x(3)] show ?thesis by blast
qed

theorem timed_out_cycle_witness:
  "\<not> stop_event limited_task \<and> pause_event limited_task \<and> list_all is_poll (body slow_env) \<and>
   result slow_env = Returns \<and> max_running_time limited_task = Some 2000000 \<and>
   (2000000 :: int) \<noteq> 0 \<and> 2000000 < t_check slow_env - t_start slow_env \<and>
   run slow_env limited_task = Some (False, started slow_env limited_task) \<and>
   status (started slow_env limited_task) = RUNNING \<and>
   only_entry (started slow_env limited_task) stuck_scheduler \<and>
   ticks (\<lambda>k. idle_tick) 2 stuck_scheduler = Some ([], stuck_scheduler) \<and>
   task_id (started slow_env limited_task) \<notin> set []"
proof -
  have a: "\<not> stop_event limited_task" "pause_event limited_task" "list_all is_poll (body slow_env)"
    "result slow_env = Returns" "max_running_time limited_task = Some 2000000"
    "(2000000 :: int) \<noteq> 0" "2000000 < t_check slow_env - t_start slow_env"
    by (simp_all add: limited_task_def slow_env_def PeriodicTask_init_def BaseTask_init_def)
  have st: "status (started slow_env limited_task) = RUNNING"
    by (simp add: started_def update_status_def)
  have tk: "tasks stuck_scheduler =
      [(task_id (started slow_env limited_task), started slow_env limited_task)]"
    "\<not> sched_stop_event stuck_scheduler"
    by (simp_all add: stuck_scheduler_def add_task_def Scheduler_init_def)
  have oe: "only_entry (started slow_env limited_task) stuck_scheduler"
    by (simp add: only_entry_def tk)
  have rt: "ready_tasks idle_tick stuck_scheduler = []"
    by (simp add: ready_tasks_def snapshot_def tk is_ready_def st)
  have siw: "\<not> stop_in_wait idle_tick" by (simp add: idle_tick_def)
  have t1: "tick idle_tick stuck_scheduler = Some ([], stuck_scheduler)"
    by (simp add: tick_def rt siw tk)
  have t2: "ticks (\<lambda>k. idle_tick) 2 stuck_scheduler = Some ([], stuck_scheduler)"
    by (simp add: numeral_2_eq_2 t1 tk)
  from timed_out_cycle [OF a] oe t2 st show ?thesis using a by simp
qed


section \<open>The dispatcher\<close>

text \<open>
  C8.  In an iteration of the dispatcher that returns, the tasks run are the first ones
  of the sorted snapshot, in its order, and all of it when \<^verbatim>\<open>Scheduler.stop\<close> is not
  called.  The sorted snapshot is the snapshot in descending order of priority, with the
  tasks of equal priority in the order they had.  A snapshot with the priorities LOW,
  CRITICAL, NORMAL, HIGH is run in the order CRITICAL, HIGH, NORMAL, LOW.
\<close>

theorem dispatch_order:
  assumes "tick env s = Some (ex, s')"
  shows "(\<exists>k. ex = map task_id (take k (ready_tasks env s))) \<and>
         (\<not> sched_stop_event s \<and> (\<forall>k. \<not> stop_during env k) \<longrightarrow>
            ex = map task_id (ready_tasks env s)) \<and>
         sorted_wrt (\<lambda>a b. priority_value (priority a) \<ge> priority_value (priority b))
           (ready_tasks env s) \<and>
         mset (ready_tasks env s) = mset (snapshot env s) \<and>
         (\<forall>p. filter (\<lambda>t. priority t = p) (ready_tasks env s) =
              filter (\<lambda>t. priority t = p) (snapshot env s)) \<and>
         (\<forall>a b c d. snapshot env s = [a, b, c, d] \<and> priority a = LOW \<and>
              priority b = CRITICAL \<and> priority c = NORMAL \<and> priority d = HIGH \<longrightarrow>
              ready_tasks env s = [b, d, c, a])"
proof -
  from assms obtain s1 where rr: "run_ready env (ready_tasks env s) s = Some (ex, s1)"
    by (auto simp: tick_def split: option.splits)
  have four: "ready_tasks env s = [b, d, c, a]"
    if "snapshot env s = [a, b, c, d] \<and> priority a = LOW \<and>
              priority b = CRITICAL \<and> priority c = NORMAL \<and> priority d = HIGH" for a b c d
    using that list_sort_four [of a b c d] by (simp add: ready_tasks_def)
  from run_ready_prefix [OF rr] run_ready_all [OF rr] four show ?thesis
    unfolding ready_tasks_def
    by (simp add: list_sort_descending list_sort_mset list_sort_stable)
qed

theorem dispatch_order_witness:
  "snapshot due_tick four_tasks =
     [task_of ''t-low'' LOW, task_of ''t-critical'' CRITICAL, task_of ''t-normal'' NORMAL,
      task_of ''t-high'' HIGH] \<and>
   map_option fst (tick due_tick four_tasks) =
     Some [''t-critical'', ''t-high'', ''t-normal'', ''t-low''] \<and>
   map task_id (ready_tasks due_tick four_tasks) =
     [''t-critical'', ''t-high'', ''t-normal'', ''t-low'']"
proof -
  from four_tick obtain ex s' where t: "tick due_tick four_tasks = Some (ex, s')"
    and ex: "ex = [''t-critical'', ''t-high'', ''t-normal'', ''t-low'']"
    by (cases "tick due_tick four_tasks") auto
  have n: "\<not> sched_stop_event four_tasks \<and> (\<forall>k. \<not> stop_during due_tick k)"
    by (simp add: four_tasks_def add_task_def Scheduler_init_def due_tick_def)
  from dispatch_order [OF t] n ex
  have "map task_id (ready_tasks due_tick four_tasks) =
     [''t-critical'', ''t-high'', ''t-normal'', ''t-low'']" by simp
  with four_snapshot four_tick show ?thesis by simp
qed

text \<open>
  C1.  What \<^verbatim>\<open>start\<close> does on a scheduler that was just built.  In BACKGROUND mode it
  sets the thread going and returns.  In FOREGROUND mode, the default, \<open>is_running\<close>
  already holds, since the stop event is clear, and \<^verbatim>\<open>start\<close> raises
  \<^verbatim>\<open>RuntimeError\<close>: the loop is not entered.
\<close>

theorem foreground_start_refused:
  "thread (Scheduler_init FOREGROUND ci) = None \<and>
   is_running (Scheduler_init FOREGROUND ci) \<and>
   start envs (Scheduler_init FOREGROUND ci) =
     Some (Inl (RuntimeError ''Scheduler is already running'')) \<and>
   start envs (Scheduler_init BACKGROUND ci) =
     Some (Inr ((Scheduler_init BACKGROUND ci) \<lparr> thread := Some True \<rparr>))"
  by (simp add: start_def is_running_def Scheduler_init_def)


end
